theory Spec2Isabelle
  imports Main "HOL-Library.Word" "HOL-Library.Multiset"
begin

section \<open>Bytes, files and errors\<close>

text \<open>
  The program is \<^verbatim>\<open>zxtools/hobeta.py\<close>. A Python \<^verbatim>\<open>bytes\<close> object is a list of
  8-bit values. A binary file opened by \<^verbatim>\<open>argparse.FileType\<close> is its contents together
  with the read position; the output file is the list of bytes written to it so far.
\<close>

type_synonym byte = "8 word"

record fileobj =
  contents :: "byte list"
  pos :: nat

text \<open>
  The exceptions the modelled code can raise: \<^verbatim>\<open>struct.error\<close> (from
  \<^verbatim>\<open>struct.unpack_from\<close> on a short buffer), \<^verbatim>\<open>TypeError\<close> (from
  \<^verbatim>\<open>Header._make\<close> on a sequence that does not fit the seven fields) and
  \<^verbatim>\<open>UnicodeDecodeError\<close> (from \<^verbatim>\<open>bytes.decode("ascii")\<close>).
\<close>

datatype error = Struct_error | Type_error | UnicodeDecodeError

text \<open>
  \<^verbatim>\<open>f.read(n)\<close>: up to \<open>n\<close> bytes from the read position, fewer at the end of the
  file, everything that is left when \<open>n\<close> is negative; the position advances by the
  number of bytes returned.
\<close>

definition file_read :: "int \<Rightarrow> fileobj \<Rightarrow> byte list \<times> fileobj" where
  "file_read n f =
     (let rest = drop (pos f) (contents f);
          data = (if n < 0 then rest else take (nat n) rest)
      in (data, f\<lparr>pos := pos f + length data\<rparr>))"

text \<open>\<^verbatim>\<open>f.seek(offset)\<close>, \<^verbatim>\<open>f.seek(0, os.SEEK_END)\<close> and \<^verbatim>\<open>f.tell()\<close>.\<close>

definition file_seek :: "nat \<Rightarrow> fileobj \<Rightarrow> fileobj" where
  "file_seek offset f = f\<lparr>pos := offset\<rparr>"

definition file_seek_end :: "fileobj \<Rightarrow> fileobj" where
  "file_seek_end f = f\<lparr>pos := length (contents f)\<rparr>"

definition file_tell :: "fileobj \<Rightarrow> int" where
  "file_tell f = int (pos f)"

section \<open>The header format\<close>

text \<open>
  \<^verbatim>\<open>HEADER_FMT = '<8sBHHBBH'\<close>. The leading \<^verbatim>\<open><\<close> selects little-endian byte order,
  standard sizes and no alignment; the remaining codes are kept as a list.
\<close>

datatype fmt_code = Fmt_s nat | Fmt_B | Fmt_H

definition HEADER_FMT :: "fmt_code list" where
  "HEADER_FMT = [Fmt_s 8, Fmt_B, Fmt_H, Fmt_H, Fmt_B, Fmt_B, Fmt_H]"

fun code_size :: "fmt_code \<Rightarrow> nat" where
  "code_size (Fmt_s n) = n"
| "code_size Fmt_B = 1"
| "code_size Fmt_H = 2"

definition calcsize :: "fmt_code list \<Rightarrow> nat" where
  "calcsize fmt = sum_list (map code_size fmt)"

text \<open>The values \<^verbatim>\<open>struct\<close> produces: a byte string or a non-negative integer.\<close>

datatype pyval = PyBytes "byte list" | PyInt nat

text \<open>An unsigned integer stored least significant byte first.\<close>

fun le_uint :: "byte list \<Rightarrow> nat" where
  "le_uint [] = 0"
| "le_uint (b # bs) = unat b + 256 * le_uint bs"

fun unpack_code :: "fmt_code \<Rightarrow> byte list \<Rightarrow> pyval" where
  "unpack_code (Fmt_s n) bs = PyBytes bs"
| "unpack_code Fmt_B bs = PyInt (le_uint bs)"
| "unpack_code Fmt_H bs = PyInt (le_uint bs)"

fun unpack_fields :: "fmt_code list \<Rightarrow> byte list \<Rightarrow> pyval list" where
  "unpack_fields [] data = []"
| "unpack_fields (c # cs) data =
     unpack_code c (take (code_size c) data) # unpack_fields cs (drop (code_size c) data)"

text \<open>
  \<^verbatim>\<open>struct.unpack_from(fmt, data)\<close> at offset 0: the buffer may be longer than the
  format, a shorter one raises \<^verbatim>\<open>struct.error\<close>.
\<close>

definition unpack_from :: "fmt_code list \<Rightarrow> byte list \<Rightarrow> error + pyval list" where
  "unpack_from fmt data =
     (if length data < calcsize fmt then Inl Struct_error
      else Inr (unpack_fields fmt data))"

text \<open>
  The named tuple \<^verbatim>\<open>Header\<close>. The field \<^verbatim>\<open>length\<close> is called \<open>length_field\<close>
  here, away from the length of a list.
\<close>

record header =
  filename :: "byte list"
  filetype :: nat
  start :: nat
  length_field :: nat
  first_sector :: nat
  occupied_sectors :: nat
  check_sum :: nat

definition Header_make :: "pyval list \<Rightarrow> error + header" where
  "Header_make vs =
     (case vs of
        [PyBytes fn, PyInt ft, PyInt st, PyInt ln, PyInt fs, PyInt os, PyInt cs] \<Rightarrow>
          Inr \<lparr>filename = fn, filetype = ft, start = st, length_field = ln,
               first_sector = fs, occupied_sectors = os, check_sum = cs\<rparr>
      | _ \<Rightarrow> Inl Type_error)"

section \<open>The checksum\<close>

text \<open>\<^verbatim>\<open>numpy.uint16(x)\<close>: the integer \<open>x\<close> cut down to its low 16 bits.\<close>

definition numpy_uint16 :: "int \<Rightarrow> 16 word" where
  "numpy_uint16 x = word_of_int x"

text \<open>
  \<^verbatim>\<open>calc_checksum\<close>: the loop over \<^verbatim>\<open>enumerate(data)\<close>, with the sum formed on
  integers and converted back to 16 bits in every round.
\<close>

definition calc_checksum :: "byte list \<Rightarrow> 16 word" where
  "calc_checksum data =
     fold (\<lambda>(i, val) check_sum. numpy_uint16 (uint check_sum + uint val * 257 + int i))
       (enumerate 0 data) 0"

text \<open>
  The recurrence as the specification words it, on natural numbers: the accumulator
  starts at 0 and each byte \<open>b\<close> at index \<open>i\<close> replaces it by
  \<open>(accumulator + b * 257 + i) mod 65536\<close>.
\<close>

fun checksum_spec_from :: "nat \<Rightarrow> nat \<Rightarrow> nat list \<Rightarrow> nat" where
  "checksum_spec_from i acc [] = acc"
| "checksum_spec_from i acc (b # bs) =
     checksum_spec_from (Suc i) ((acc + b * 257 + i) mod 65536) bs"

definition checksum_spec :: "nat list \<Rightarrow> nat" where
  "checksum_spec bs = checksum_spec_from 0 0 bs"

section \<open>Reading a header\<close>

text \<open>
  \<^verbatim>\<open>parse_info\<close>: reads \<^verbatim>\<open>header_len\<close> bytes, computes the checksum of all but the
  last two of them, then unpacks. The result is the header, the computed checksum and
  the file as the read left it.
\<close>

definition parse_info :: "fileobj \<Rightarrow> error + ((header \<times> 16 word) \<times> fileobj)" where
  "parse_info hobeta_file =
     (let header_len = calcsize HEADER_FMT;
          (data, hobeta_file') = file_read (int header_len) hobeta_file;
          actual_check_sum = calc_checksum (take (header_len - 2) data)
      in case unpack_from HEADER_FMT data of
           Inl e \<Rightarrow> Inl e
         | Inr vs \<Rightarrow>
             (case Header_make vs of
                Inl e \<Rightarrow> Inl e
              | Inr header \<Rightarrow> Inr ((header, actual_check_sum), hobeta_file')))"

section \<open>Stripping the header\<close>

definition buf_size :: int where
  "buf_size = 512 * 1024"

text \<open>
  The loop \<^verbatim>\<open>while length:\<close> of \<^verbatim>\<open>strip_header\<close>, on the remaining count, the source
  file and the bytes written to the destination. It stops when the count reaches zero
  or a read returns nothing, and gives back the count that is left.
\<close>

function copy_loop :: "int \<Rightarrow> fileobj \<Rightarrow> byte list \<Rightarrow> int \<times> fileobj \<times> byte list" where
  "copy_loop len src_file dst_file =
     (if len = 0 then (len, src_file, dst_file)
      else
        let chunk_size = min buf_size len;
            (data, src_file') = file_read chunk_size src_file
        in if data = [] then (len, src_file', dst_file)
           else copy_loop (len - int (length data)) src_file' (dst_file @ data))"
  by pat_completeness auto
termination
proof (relation "measure (\<lambda>(len, src_file, dst_file). length (contents src_file) - pos src_file)")
  show "wf (measure (\<lambda>(len, src_file, dst_file). length (contents src_file) - pos src_file))"
    by simp
next
  fix len :: int and src_file src_file' :: fileobj and dst_file data :: "byte list"
    and chunk_size :: int and x :: "byte list \<times> fileobj"
  assume "x = file_read chunk_size src_file" and "(data, src_file') = x" and "data \<noteq> []"
  then have r: "file_read chunk_size src_file = (data, src_file')"
    by simp
  from r have "data = (if chunk_size < 0 then drop (pos src_file) (contents src_file)
      else take (nat chunk_size) (drop (pos src_file) (contents src_file)))"
    and "src_file' = src_file\<lparr>pos := pos src_file + length data\<rparr>"
    by (auto simp: file_read_def Let_def)
  with \<open>data \<noteq> []\<close> have "0 < length data" and "length data \<le> length (contents src_file) - pos src_file"
    and "contents src_file' = contents src_file" and "pos src_file' = pos src_file + length data"
    by (auto split: if_splits)
  then show "((len - int (length data), src_file', dst_file @ data), len, src_file, dst_file)
      \<in> measure (\<lambda>(len, src_file, dst_file). length (contents src_file) - pos src_file)"
    by (cases data) auto
qed

text \<open>\<^verbatim>\<open>bytes_to_copy\<close>: the branch on \<^verbatim>\<open>parsed_args.ignore_header\<close>.\<close>

definition bytes_to_copy :: "bool \<Rightarrow> int \<Rightarrow> header \<Rightarrow> int" where
  "bytes_to_copy ignore_header hobeta_file_size header =
     (if ignore_header then hobeta_file_size - int (calcsize HEADER_FMT)
      else int (length_field header))"

text \<open>
  The body of the \<^verbatim>\<open>with\<close> block of \<^verbatim>\<open>strip_header\<close>: the size of the source is
  taken by seeking to its end, the source is positioned at \<^verbatim>\<open>header_size\<close>, and the
  loop runs. The result is \<^verbatim>\<open>bytes_to_copy - length\<close> with the two files.
\<close>

definition copy_payload :: "header \<Rightarrow> bool \<Rightarrow> fileobj \<Rightarrow> byte list \<Rightarrow> int \<times> fileobj \<times> byte list" where
  "copy_payload header ignore_header src_file dst_file =
     (let header_size = calcsize HEADER_FMT;
          src_file1 = file_seek_end src_file;
          hobeta_file_size = file_tell src_file1;
          budget = bytes_to_copy ignore_header hobeta_file_size header;
          src_file2 = file_seek header_size src_file1;
          (len, src_file3, dst_file') = copy_loop budget src_file2 dst_file
      in (budget - len, src_file3, dst_file'))"

text \<open>Decimal text of an integer, as \<^verbatim>\<open>str\<close> and \<^verbatim>\<open>%d\<close> give it.\<close>

fun str_nat :: "nat \<Rightarrow> string" where
  "str_nat n =
     (if n < 10 then [char_of (48 + n)]
      else str_nat (n div 10) @ [char_of (48 + n mod 10)])"

definition str_int :: "int \<Rightarrow> string" where
  "str_int i = (if i < 0 then CHR ''-'' # str_nat (nat (- i)) else str_nat (nat i))"

text \<open>
  The arguments of the \<^verbatim>\<open>strip\<close> command: the source file, the bytes already in the
  output file and its name, and the flag \<^verbatim>\<open>--ignore-header\<close>.
\<close>

record parsed_args =
  hobeta_file :: fileobj
  output_file :: "byte list"
  output_name :: string
  ignore_header :: bool

text \<open>
  What a run of \<^verbatim>\<open>strip_header\<close> leaves behind: the value returned, the output file
  and the lines printed.
\<close>

record strip_result =
  returned :: int
  written :: "byte list"
  printed :: "string list"

definition strip_header :: "parsed_args \<Rightarrow> error + strip_result" where
  "strip_header args =
     (case parse_info (hobeta_file args) of
        Inl e \<Rightarrow> Inl e
      | Inr ((header, crc), src_file) \<Rightarrow>
          let warning = (if check_sum header \<noteq> unat crc
                         then [''WARNING: wrong checksum in the header.''] else []);
              (n, src_file', dst_file) =
                copy_payload header (ignore_header args) src_file (output_file args)
          in Inr \<lparr>returned = n, written = dst_file,
                  printed = warning @
                    [''Created file '' @ output_name args @ '', '' @ str_int n @
                     '' bytes copied.'']\<rparr>)"

section \<open>Showing the header\<close>

text \<open>\<^verbatim>\<open>bytes.decode("ascii")\<close>: a byte above 127 raises.\<close>

definition decode_ascii :: "byte list \<Rightarrow> error + string" where
  "decode_ascii bs =
     (if list_all (\<lambda>b. unat b < 128) bs then Inr (map (\<lambda>b. char_of (unat b)) bs)
      else Inl UnicodeDecodeError)"

text \<open>
  \<^verbatim>\<open>str.expandtabs(tabsize)\<close>: a tab becomes spaces up to the next multiple of
  \<open>tabsize\<close>; a line feed or carriage return starts a new line.
\<close>

fun expandtabs_from :: "nat \<Rightarrow> nat \<Rightarrow> string \<Rightarrow> string" where
  "expandtabs_from tabsize col [] = []"
| "expandtabs_from tabsize col (c # cs) =
     (if c = CHR 0x09 then
        (if 0 < tabsize then
           let incr = tabsize - col mod tabsize
           in replicate incr CHR '' '' @ expandtabs_from tabsize (col + incr) cs
         else expandtabs_from tabsize col cs)
      else c # expandtabs_from tabsize (if c = CHR 0x0A \<or> c = CHR 0x0D then 0 else col + 1) cs)"

definition expandtabs :: "nat \<Rightarrow> string \<Rightarrow> string" where
  "expandtabs tabsize s = expandtabs_from tabsize 0 s"

text \<open>
  \<^verbatim>\<open>show_info\<close>: the text it prints, or the exception that ends it. Of its
  arguments it reads \<^verbatim>\<open>hobeta_file\<close> only.
\<close>

definition show_info :: "parsed_args \<Rightarrow> error + string" where
  "show_info args =
     (case parse_info (hobeta_file args) of
        Inl e \<Rightarrow> Inl e
      | Inr ((header, crc), _) \<Rightarrow>
          (case decode_ascii (filename header) of
             Inl e \<Rightarrow> Inl e
           | Inr name \<Rightarrow>
               Inr (expandtabs 20
                 (''File name:'' @ [CHR 0x09] @ name @ [CHR 0x0A] @
                  ''Extension:'' @ [CHR 0x09] @ [char_of (filetype header)] @ [CHR 0x0A] @
                  (if filetype header = 66 then ''Prg LEN:'' @ [CHR 0x09]
                   else ''Place at:'' @ [CHR 0x09]) @
                  str_nat (start header) @ [CHR 0x0A] @
                  ''File size:'' @ [CHR 0x09] @ str_nat (length_field header) @ [CHR 0x0A] @
                  ''First sector:'' @ [CHR 0x09] @ str_nat (first_sector header) @ [CHR 0x0A] @
                  ''Occupied sectors:'' @ [CHR 0x09] @
                  str_nat (occupied_sectors header) @ [CHR 0x0A] @
                  ''Check sum:'' @ [CHR 0x09] @ str_nat (check_sum header) @ '' '' @
                  (if unat crc = check_sum header then ''(OK)''
                   else ''(WRONG! Should be '' @ str_nat (unat crc) @ '')'')))))"

text \<open>
  The layout as the specification tabulates it: the file name in bytes 0 to 7, the type
  in byte 8, start and length as 16-bit little-endian numbers in bytes 9 to 10 and 11 to
  12, the sector fields in bytes 13 and 14, the stored checksum in bytes 15 to 16.
\<close>

definition header_spec_layout :: "byte list \<Rightarrow> header" where
  "header_spec_layout data =
     \<lparr>filename = take 8 data,
      filetype = unat (data ! 8),
      start = unat (data ! 9) + 256 * unat (data ! 10),
      length_field = unat (data ! 11) + 256 * unat (data ! 12),
      first_sector = unat (data ! 13),
      occupied_sectors = unat (data ! 14),
      check_sum = unat (data ! 15) + 256 * unat (data ! 16)\<rparr>"

section \<open>Auxiliary definitions\<close>

text \<open>What one run of the loop reads: everything for a negative count.\<close>

definition loop_reads :: "int \<Rightarrow> byte list \<Rightarrow> byte list" where
  "loop_reads len rest = (if len < 0 then rest else take (nat len) rest)"

text \<open>
  A sample file header: name \<^verbatim>\<open>TESTFILE\<close>, type \<^verbatim>\<open>B\<close>, start 100, length 3,
  first sector 3, one sector, and the stored checksum 4214 that \<^verbatim>\<open>calc_checksum\<close>
  computes for it; and the fields it unpacks to.
\<close>

definition sample_header :: "byte list" where
  "sample_header = [84, 69, 83, 84, 70, 73, 76, 69, 66, 100, 0, 3, 0, 3, 1, 118, 16]"

definition sample_fields :: header where
  "sample_fields =
     \<lparr>filename = [84, 69, 83, 84, 70, 73, 76, 69], filetype = 66, start = 100,
      length_field = 3, first_sector = 3, occupied_sectors = 1, check_sum = 4214\<rparr>"

declare copy_loop.simps [simp del]

declare str_nat.simps [simp del]

section \<open>Properties of the header reader\<close>

lemma calcsize_HEADER_FMT: "calcsize HEADER_FMT = 17"
  by (simp add: calcsize_def HEADER_FMT_def)

lemma list17:
  assumes "length (xs :: 'a list) = 17"
  obtains b0 b1 b2 b3 b4 b5 b6 b7 b8 b9 b10 b11 b12 b13 b14 b15 b16
  where "xs = [b0, b1, b2, b3, b4, b5, b6, b7, b8, b9, b10, b11, b12, b13, b14, b15, b16]"
  using assms by (auto simp: numeral_eq_Suc length_Suc_conv)

lemma file_read_17:
  "17 \<le> length (contents f) - pos f \<Longrightarrow>
   file_read 17 f = (take 17 (drop (pos f) (contents f)), f\<lparr>pos := pos f + 17\<rparr>)"
  by (simp add: file_read_def Let_def min_def)

lemma unpack_17:
  "unpack_from HEADER_FMT
     [b0, b1, b2, b3, b4, b5, b6, b7, b8, b9, b10, b11, b12, b13, b14, b15, b16] =
   Inr [PyBytes [b0, b1, b2, b3, b4, b5, b6, b7], PyInt (unat b8),
        PyInt (unat b9 + 256 * unat b10), PyInt (unat b11 + 256 * unat b12),
        PyInt (unat b13), PyInt (unat b14), PyInt (unat b15 + 256 * unat b16)]"
  by (simp add: unpack_from_def calcsize_HEADER_FMT) (simp add: HEADER_FMT_def)

lemma unpack_header_17:
  assumes "length data = 17"
  shows "\<exists>vs. unpack_from HEADER_FMT data = Inr vs \<and>
    Header_make vs = Inr (header_spec_layout data)"
proof -
  from assms obtain b0 b1 b2 b3 b4 b5 b6 b7 b8 b9 b10 b11 b12 b13 b14 b15 b16
    where d: "data = [b0, b1, b2, b3, b4, b5, b6, b7, b8, b9, b10, b11, b12, b13, b14, b15, b16]"
    by (rule list17)
  show ?thesis
    unfolding d unpack_17 by (simp add: Header_make_def header_spec_layout_def)
qed

lemma parse_info_success:
  assumes "17 \<le> length (contents f) - pos f"
  shows "parse_info f =
     Inr ((header_spec_layout (take 17 (drop (pos f) (contents f))),
           calc_checksum (take 15 (drop (pos f) (contents f)))),
          f\<lparr>pos := pos f + 17\<rparr>)"
proof -
  have "length (take 17 (drop (pos f) (contents f))) = 17"
    using assms by simp
  then obtain vs where "unpack_from HEADER_FMT (take 17 (drop (pos f) (contents f))) = Inr vs"
    and "Header_make vs = Inr (header_spec_layout (take 17 (drop (pos f) (contents f))))"
    using unpack_header_17 by blast
  then show ?thesis
    using assms by (simp add: parse_info_def calcsize_HEADER_FMT file_read_17)
qed

lemma parse_info_short:
  assumes "length (contents f) - pos f < 17"
  shows "parse_info f = Inl Struct_error"
  using assms
  by (simp add: parse_info_def calcsize_HEADER_FMT file_read_def Let_def unpack_from_def)

lemma unat_numpy_uint16:
  "unat (numpy_uint16 (uint c + uint (b :: byte) * 257 + int i)) =
   (unat (c :: 16 word) + unat b * 257 + i) mod 65536"
proof -
  define N where "N = unat c + unat b * 257 + i"
  have "uint c + uint b * 257 + int i = int N"
    by (simp add: N_def)
  then have "numpy_uint16 (uint c + uint b * 257 + int i) = (of_nat N :: 16 word)"
    by (simp add: numpy_uint16_def)
  then have "unat (numpy_uint16 (uint c + uint b * 257 + int i)) = N mod 65536"
    by (simp add: unat_of_nat)
  then show ?thesis by (simp add: N_def)
qed

lemma fold_checksum_spec:
  "unat (fold (\<lambda>(i, val) check_sum. numpy_uint16 (uint check_sum + uint val * 257 + int i))
       (enumerate n (data :: byte list)) acc) =
   checksum_spec_from n (unat acc) (map unat data)"
proof (induction data arbitrary: n acc)
  case Nil
  show ?case by simp
next
  case (Cons b data)
  have "unat (fold (\<lambda>(i, val) check_sum. numpy_uint16 (uint check_sum + uint val * 257 + int i))
       (enumerate n (b # data)) acc) =
     checksum_spec_from (Suc n) (unat (numpy_uint16 (uint acc + uint b * 257 + int n)))
       (map unat data)"
    by (simp add: Cons.IH)
  also have "\<dots> = checksum_spec_from n (unat acc) (map unat (b # data))"
    by (simp only: unat_numpy_uint16 list.map checksum_spec_from.simps)
  finally show ?case .
qed

text \<open>
  C1. For every byte sequence the checksum computed by \<^verbatim>\<open>calc_checksum\<close> is the value of
  the reference recurrence, which truncates modulo 65536 at every step; and
  \<^verbatim>\<open>parse_info\<close>, reading a header of 17 bytes, returns the checksum of exactly its
  first 15 bytes.
\<close>

theorem calc_checksum_refines_spec:
  "unat (calc_checksum data) = checksum_spec (map unat data) \<and>
   (length hb = 17 \<longrightarrow>
      (\<exists>h f'. parse_info \<lparr>contents = hb @ payload, pos = 0\<rparr> =
         Inr ((h, calc_checksum (take 15 hb)), f')))"
proof
  show "unat (calc_checksum data) = checksum_spec (map unat data)"
    by (simp add: calc_checksum_def checksum_spec_def fold_checksum_spec)
next
  show "length hb = 17 \<longrightarrow>
      (\<exists>h f'. parse_info \<lparr>contents = hb @ payload, pos = 0\<rparr> =
         Inr ((h, calc_checksum (take 15 hb)), f'))"
  proof
    assume "length hb = 17"
    then show "\<exists>h f'. parse_info \<lparr>contents = hb @ payload, pos = 0\<rparr> =
         Inr ((h, calc_checksum (take 15 hb)), f')"
      by (simp add: parse_info_success)
  qed
qed

theorem calc_checksum_refines_spec_witness:
  "unat (calc_checksum [255, 255, 1]) = 258 \<and>
   checksum_spec [255, 255, 1] = 258 \<and>
   (\<exists>h f'. parse_info
      \<lparr>contents = [84, 69, 83, 84, 70, 73, 76, 69, 66, 100, 0, 0, 1, 3, 1, 116, 14] @ [7, 7],
       pos = 0\<rparr> =
      Inr ((h, calc_checksum (take 15 [84, 69, 83, 84, 70, 73, 76, 69, 66, 100, 0, 0, 1, 3, 1, 116, 14])), f'))"
proof -
  have c: "checksum_spec [255, 255, 1] = 258"
    by (simp add: checksum_spec_def)
  show ?thesis
    using calc_checksum_refines_spec
      [of "[255, 255, 1]" "[84, 69, 83, 84, 70, 73, 76, 69, 66, 100, 0, 0, 1, 3, 1, 116, 14]" "[7, 7]"]
      c
    by simp
qed

text \<open>
  C6. On every input of 17 bytes (whatever follows them in the file) \<^verbatim>\<open>parse_info\<close>
  returns a header; its fields are the bytes at the fixed little-endian layout, each
  within the range of its width, and exactly the 17 bytes are consumed. Being a function
  of its input, it gives the same header for the same bytes.
\<close>

theorem parse_info_total_layout:
  "length data = 17 \<Longrightarrow>
   \<exists>h. parse_info \<lparr>contents = data @ payload, pos = 0\<rparr> =
         Inr ((h, calc_checksum (take 15 data)), \<lparr>contents = data @ payload, pos = 17\<rparr>) \<and>
       filename h = take 8 data \<and>
       filetype h = unat (data ! 8) \<and>
       start h = unat (data ! 9) + 256 * unat (data ! 10) \<and>
       length_field h = unat (data ! 11) + 256 * unat (data ! 12) \<and>
       first_sector h = unat (data ! 13) \<and>
       occupied_sectors h = unat (data ! 14) \<and>
       check_sum h = unat (data ! 15) + 256 * unat (data ! 16)"
  by (simp add: parse_info_success header_spec_layout_def)

theorem parse_info_total_layout_witness:
  "\<exists>h. parse_info
       \<lparr>contents = [84, 69, 83, 84, 70, 73, 76, 69, 66, 100, 0, 0, 1, 3, 1, 116, 14] @ [7, 7],
        pos = 0\<rparr> =
       Inr ((h, calc_checksum (take 15 [84, 69, 83, 84, 70, 73, 76, 69, 66, 100, 0, 0, 1, 3, 1, 116, 14])),
            \<lparr>contents = [84, 69, 83, 84, 70, 73, 76, 69, 66, 100, 0, 0, 1, 3, 1, 116, 14] @ [7, 7],
             pos = 17\<rparr>) \<and>
     filename h = [84, 69, 83, 84, 70, 73, 76, 69] \<and> filetype h = 66 \<and> start h = 100 \<and>
     length_field h = 256 \<and> first_sector h = 3 \<and> occupied_sectors h = 1 \<and>
     check_sum h = 3700"
  using parse_info_total_layout
    [of "[84, 69, 83, 84, 70, 73, 76, 69, 66, 100, 0, 0, 1, 3, 1, 116, 14]" "[7, 7]"]
  by simp

text \<open>
  C7. With fewer than 17 bytes left in the file \<^verbatim>\<open>parse_info\<close> ends in the exception
  raised by \<^verbatim>\<open>struct.unpack_from\<close> and returns no header; with 17 or more it returns a
  header and has consumed exactly 17 bytes.
\<close>

theorem parse_info_truncated:
  "(length (contents f) - pos f < 17 \<longrightarrow> parse_info f = Inl Struct_error) \<and>
   (17 \<le> length (contents f) - pos f \<longrightarrow>
      (\<exists>h crc. parse_info f = Inr ((h, crc), f\<lparr>pos := pos f + 17\<rparr>)))"
  by (simp add: parse_info_success parse_info_short)

theorem parse_info_truncated_witness:
  "parse_info \<lparr>contents = [84, 69, 83, 84, 70, 73, 76, 69, 66, 100, 0, 0, 1, 3, 1, 116], pos = 0\<rparr> =
     Inl Struct_error \<and>
   (\<exists>h crc. parse_info
       \<lparr>contents = [84, 69, 83, 84, 70, 73, 76, 69, 66, 100, 0, 0, 1, 3, 1, 116, 14], pos = 0\<rparr> =
     Inr ((h, crc),
       \<lparr>contents = [84, 69, 83, 84, 70, 73, 76, 69, 66, 100, 0, 0, 1, 3, 1, 116, 14], pos = 17\<rparr>))"
  using parse_info_truncated
      [of "\<lparr>contents = [84, 69, 83, 84, 70, 73, 76, 69, 66, 100, 0, 0, 1, 3, 1, 116], pos = 0\<rparr>"]
    parse_info_truncated
      [of "\<lparr>contents = [84, 69, 83, 84, 70, 73, 76, 69, 66, 100, 0, 0, 1, 3, 1, 116, 14], pos = 0\<rparr>"]
  by simp

section \<open>The checksum does not depend on the order of the bytes\<close>

lemma checksum_spec_from_closed:
  "checksum_spec_from n acc bs mod 65536 =
   (acc + 257 * sum_list bs + (\<Sum>i = n..<n + length bs. i)) mod 65536"
proof (induction bs arbitrary: n acc)
  case Nil
  show ?case by simp
next
  case (Cons b bs)
  have s: "(\<Sum>i = n..<n + length (b # bs). i) = n + (\<Sum>i = Suc n..<Suc n + length bs. i)"
    by (simp add: sum.atLeast_Suc_lessThan)
  have "checksum_spec_from n acc (b # bs) mod 65536 =
      ((acc + b * 257 + n) mod 65536 + 257 * sum_list bs + (\<Sum>i = Suc n..<Suc n + length bs. i)) mod 65536"
    by (simp only: checksum_spec_from.simps Cons.IH)
  also have "\<dots> = (acc + b * 257 + n + (257 * sum_list bs + (\<Sum>i = Suc n..<Suc n + length bs. i))) mod 65536"
    by (simp only: add.assoc mod_add_left_eq)
  also have "\<dots> = (acc + 257 * sum_list (b # bs) + (\<Sum>i = n..<n + length (b # bs). i)) mod 65536"
    by (simp only: s) (simp add: algebra_simps)
  finally show ?case .
qed

lemma calc_checksum_closed:
  "unat (calc_checksum data) =
   (257 * sum_list (map unat data) + (\<Sum>i = 0..<length data. i)) mod 65536"
proof -
  have "unat (calc_checksum data) < 2 ^ LENGTH(16)"
    by (rule unsigned_less)
  then have "unat (calc_checksum data) = unat (calc_checksum data) mod 65536"
    by simp
  also have "\<dots> = checksum_spec_from 0 0 (map unat data) mod 65536"
    using fold_checksum_spec [of 0 data 0] by (simp add: calc_checksum_def)
  also have "\<dots> = (257 * sum_list (map unat data) + (\<Sum>i = 0..<length data. i)) mod 65536"
    by (simp add: checksum_spec_from_closed)
  finally show ?thesis .
qed

lemma calc_checksum_mset:
  assumes "mset xs = mset ys"
  shows "calc_checksum xs = calc_checksum ys"
proof -
  have "sum_list (map unat xs) = sum_mset (image_mset unat (mset xs))"
    by (simp flip: sum_mset_sum_list)
  also have "\<dots> = sum_list (map unat ys)"
    by (simp add: assms flip: sum_mset_sum_list)
  finally have s: "sum_list (map unat xs) = sum_list (map unat ys)" .
  have l: "length xs = length ys"
    using assms by (rule mset_eq_length)
  have "unat (calc_checksum xs) = unat (calc_checksum ys)"
    by (simp only: calc_checksum_closed s l)
  then show ?thesis
    by (simp only: word_unat_eq_iff)
qed

text \<open>
  C2, as the code has it. The claim that exchanging two different bytes at two indices
  of a 15-byte input changes the checksum does not hold: the index is added, not
  multiplied with the byte, so the result is
  \<open>(257 * (sum of the bytes) + (sum of the indices)) mod 65536\<close>. The two
  15-byte inputs below differ by the exchange of the bytes 1 and 2 at indices 0 and 1
  and have the same checksum.
\<close>

theorem calc_checksum_swap_counterexample:
  "calc_checksum [1, 2, 3, 4, 5, 6, 7, 8, 9, 10, 11, 12, 13, 14, 15] = 30945 \<and>
   calc_checksum [2, 1, 3, 4, 5, 6, 7, 8, 9, 10, 11, 12, 13, 14, 15] = 30945"
  by (simp add: calc_checksum_def numpy_uint16_def)

text \<open>
  C2, amended. The checksum is
  \<open>(257 * (sum of the bytes) + (sum of the indices)) mod 65536\<close>; exchanging the
  bytes at any two indices of any input leaves it unchanged, and so does every
  rearrangement: it is a function of the multiset of the bytes.
\<close>

theorem calc_checksum_swap:
  "(i < length data \<longrightarrow> j < length data \<longrightarrow>
      calc_checksum (data[i := data ! j, j := data ! i]) = calc_checksum data) \<and>
   (mset data = mset data' \<longrightarrow> calc_checksum data = calc_checksum data') \<and>
   unat (calc_checksum data) =
     (257 * sum_list (map unat data) + (\<Sum>k = 0..<length data. k)) mod 65536"
proof (intro conjI impI)
  assume "i < length data" and "j < length data"
  then have "mset (data[i := data ! j, j := data ! i]) = mset data"
    by (simp add: mset_swap)
  then show "calc_checksum (data[i := data ! j, j := data ! i]) = calc_checksum data"
    by (rule calc_checksum_mset)
next
  assume "mset data = mset data'"
  then show "calc_checksum data = calc_checksum data'"
    by (rule calc_checksum_mset)
next
  show "unat (calc_checksum data) =
     (257 * sum_list (map unat data) + (\<Sum>k = 0..<length data. k)) mod 65536"
    by (rule calc_checksum_closed)
qed

theorem calc_checksum_swap_witness:
  "calc_checksum ([1, 2, 3, 4, 5, 6, 7, 8, 9, 10, 11, 12, 13, 14, 15][0 := 2, 1 := 1]) =
     calc_checksum [1, 2, 3, 4, 5, 6, 7, 8, 9, 10, 11, 12, 13, 14, 15] \<and>
   calc_checksum [1, 2, 3] = calc_checksum [3, 1, 2] \<and>
   unat (calc_checksum [1, 2, 3]) = (257 * (1 + 2 + 3) + (0 + 1 + 2)) mod 65536 \<and>
   unat (calc_checksum [1, 2, 3]) = 1545"
proof -
  have s: "(\<Sum>k = 0..<length [1, 2, 3 :: byte]. k) = 3"
    by (simp add: numeral_eq_Suc)
  note t1 = calc_checksum_swap [of 0 "[1, 2, 3, 4, 5, 6, 7, 8, 9, 10, 11, 12, 13, 14, 15]" 1 "[]"]
  note t2 = calc_checksum_swap [of 0 "[1, 2, 3]" 0 "[3, 1, 2]"]
  have a: "calc_checksum ([1, 2, 3, 4, 5, 6, 7, 8, 9, 10, 11, 12, 13, 14, 15][0 := 2, 1 := 1]) =
     calc_checksum [1, 2, 3, 4, 5, 6, 7, 8, 9, 10, 11, 12, 13, 14, 15]"
    using t1 by simp
  have b: "calc_checksum [1, 2, 3] = calc_checksum [3, 1, 2]"
    using t2 by simp
  have "unat (calc_checksum [1, 2, 3]) =
      (257 * sum_list (map unat [1, 2, 3 :: byte]) + (\<Sum>k = 0..<length [1, 2, 3 :: byte]. k)) mod 65536"
    using t2 by blast
  then have c: "unat (calc_checksum [1, 2, 3]) = 1545"
    by (simp add: s)
  have d: "unat (calc_checksum [1, 2, 3]) = (257 * (1 + 2 + 3) + (0 + 1 + 2)) mod 65536"
    using c by simp
  show ?thesis
    by (rule conjI [OF a conjI [OF b conjI [OF d c]]])
qed

section \<open>Properties of the copy\<close>

lemma parse_info_InrD:
  assumes "parse_info f = Inr ((hdr, crc), f')"
  shows "17 \<le> length (contents f) - pos f"
    and "hdr = header_spec_layout (take 17 (drop (pos f) (contents f)))"
    and "crc = calc_checksum (take 15 (drop (pos f) (contents f)))"
    and "f' = f\<lparr>pos := pos f + 17\<rparr>"
proof -
  show a: "17 \<le> length (contents f) - pos f"
  proof (rule ccontr)
    assume "\<not> 17 \<le> length (contents f) - pos f"
    then have "parse_info f = Inl Struct_error"
      by (simp add: parse_info_short)
    with assms show False by simp
  qed
  from assms parse_info_success [OF a]
  show "hdr = header_spec_layout (take 17 (drop (pos f) (contents f)))"
    and "crc = calc_checksum (take 15 (drop (pos f) (contents f)))"
    and "f' = f\<lparr>pos := pos f + 17\<rparr>"
    by simp_all
qed

lemma take_chunk:
  "c \<le> n \<Longrightarrow>
   take c xs @ take (n - length (take c xs)) (drop (length (take c xs)) xs) = take n xs"
proof (cases "c \<le> length xs")
  case True
  assume "c \<le> n"
  then have "take n xs = take (c + (n - c)) xs"
    by simp
  also have "\<dots> = take c xs @ take (n - c) (drop c xs)"
    by (rule take_add)
  finally show ?thesis
    using True by (simp add: min_def)
next
  case False
  assume "c \<le> n"
  with False show ?thesis
    by simp
qed

text \<open>
  The loop in closed form: it moves the bytes from the read position on, as many as the
  count allows, in however many chunks.
\<close>

lemma copy_loop_closed:
  "copy_loop len src dst =
     (len - int (length (loop_reads len (drop (pos src) (contents src)))),
      src\<lparr>pos := pos src + length (loop_reads len (drop (pos src) (contents src)))\<rparr>,
      dst @ loop_reads len (drop (pos src) (contents src)))"
proof (induction len src dst rule: copy_loop.induct)
  case (1 len src dst)
  define rest where "rest = drop (pos src) (contents src)"
  define chunk where "chunk = min buf_size len"
  define data where "data = (if chunk < 0 then rest else take (nat chunk) rest)"
  define src' where "src' = src\<lparr>pos := pos src + length data\<rparr>"
  have rd: "file_read chunk src = (data, src')"
    by (simp add: file_read_def Let_def data_def src'_def rest_def)
  show ?case
  proof (cases "len = 0")
    case True
    then show ?thesis
      by (subst copy_loop.simps) (simp add: loop_reads_def)
  next
    case nz: False
    show ?thesis
    proof (cases "data = []")
      case True
      have "loop_reads len rest = []"
      proof (cases "len < 0")
        case True
        with \<open>data = []\<close> show ?thesis
          by (simp add: loop_reads_def data_def chunk_def buf_size_def)
      next
        case False
        with nz have "0 < chunk"
          by (simp add: chunk_def buf_size_def)
        with \<open>data = []\<close> have "rest = []"
          by (simp add: data_def)
        then show ?thesis
          by (simp add: loop_reads_def)
      qed
      moreover have "copy_loop len src dst = (len, src', dst)"
        using nz True rd by (subst copy_loop.simps) (simp add: chunk_def)
      moreover have "src' = src"
        using True by (simp add: src'_def)
      ultimately show ?thesis
        by (simp add: rest_def)
    next
      case ne: False
      have step: "copy_loop len src dst = copy_loop (len - int (length data)) src' (dst @ data)"
        using nz ne rd by (subst copy_loop.simps) (simp add: chunk_def)
      have ih: "copy_loop (len - int (length data)) src' (dst @ data) =
         (len - int (length data) -
            int (length (loop_reads (len - int (length data)) (drop (pos src') (contents src')))),
          src'\<lparr>pos := pos src' +
            length (loop_reads (len - int (length data)) (drop (pos src') (contents src')))\<rparr>,
          (dst @ data) @ loop_reads (len - int (length data)) (drop (pos src') (contents src')))"
        using nz ne rd by (intro "1.IH" [of chunk "(data, src')" data src']) (simp_all add: chunk_def)
      have rest': "drop (pos src') (contents src') = drop (length data) rest"
        by (simp add: src'_def rest_def add.commute)
      have app: "data @ loop_reads (len - int (length data)) (drop (length data) rest) =
          loop_reads len rest"
      proof (cases "len < 0")
        case True
        then have "data = rest"
          by (simp add: data_def chunk_def buf_size_def)
        with True show ?thesis
          by (simp add: loop_reads_def)
      next
        case False
        with nz have c: "0 < chunk" "chunk \<le> len"
          by (simp_all add: chunk_def buf_size_def)
        then have d: "data = take (nat chunk) rest"
          by (simp add: data_def)
        have "length data \<le> nat len"
          using c by (simp add: d)
        then have "loop_reads (len - int (length data)) (drop (length data) rest) =
            take (nat len - length data) (drop (length data) rest)"
          using False by (simp add: loop_reads_def nat_diff_distrib')
        moreover have "nat chunk \<le> nat len"
          using c by simp
        then have "take (nat chunk) rest @
            take (nat len - length (take (nat chunk) rest))
              (drop (length (take (nat chunk) rest)) rest) = take (nat len) rest"
          by (rule take_chunk)
        ultimately show ?thesis
          using False by (simp only: d loop_reads_def if_False)
      qed
      have len_app: "length (loop_reads len rest) =
          length data + length (loop_reads (len - int (length data)) (drop (length data) rest))"
        by (simp flip: app)
      show ?thesis
        unfolding step ih rest' rest_def [symmetric]
        by (simp add: app len_app src'_def)
    qed
  qed
qed

lemma loop_reads_budget:
  "loop_reads (bytes_to_copy ig (int (length xs)) header) (drop 17 xs) =
   take (nat (bytes_to_copy ig (int (length xs)) header)) (drop 17 xs)"
  by (simp add: loop_reads_def bytes_to_copy_def calcsize_HEADER_FMT)

lemma copy_payload_closed:
  "copy_payload header ig src dst =
     (int (length (take (nat (bytes_to_copy ig (int (length (contents src))) header))
              (drop 17 (contents src)))),
      src\<lparr>pos := 17 + length (take (nat (bytes_to_copy ig (int (length (contents src))) header))
              (drop 17 (contents src)))\<rparr>,
      dst @ take (nat (bytes_to_copy ig (int (length (contents src))) header))
              (drop 17 (contents src)))"
  by (simp add: copy_payload_def Let_def calcsize_HEADER_FMT file_seek_end_def file_tell_def
      file_seek_def copy_loop_closed loop_reads_budget)

lemma strip_header_closed:
  assumes "parse_info (hobeta_file args) = Inr ((hdr, crc), f')"
  shows "strip_header args =
     Inr \<lparr>returned = int (length (take (nat (bytes_to_copy (ignore_header args)
                (int (length (contents (hobeta_file args)))) hdr))
              (drop 17 (contents (hobeta_file args))))),
          written = output_file args @
            take (nat (bytes_to_copy (ignore_header args)
                (int (length (contents (hobeta_file args)))) hdr))
              (drop 17 (contents (hobeta_file args))),
          printed = (if check_sum hdr \<noteq> unat crc
                     then [''WARNING: wrong checksum in the header.''] else []) @
            [''Created file '' @ output_name args @ '', '' @
             str_int (int (length (take (nat (bytes_to_copy (ignore_header args)
                (int (length (contents (hobeta_file args)))) hdr))
              (drop 17 (contents (hobeta_file args)))))) @ '' bytes copied.'']\<rparr>"
proof -
  have "contents f' = contents (hobeta_file args)"
    using parse_info_InrD(4) [OF assms] by simp
  then show ?thesis
    by (simp add: strip_header_def assms copy_payload_closed Let_def)
qed

lemma take_min_length: "take (min (length xs - m) k) (drop m xs) = take k (drop m xs)"
  by (simp add: min_def)

lemma length_sample_header: "length sample_header = 17"
  by (simp add: sample_header_def)

lemma calc_checksum_sample: "calc_checksum (take 15 sample_header) = 4214"
  by (simp add: sample_header_def calc_checksum_def numpy_uint16_def)

lemma parse_info_sample:
  "parse_info \<lparr>contents = sample_header @ payload, pos = 0\<rparr> =
     Inr ((sample_fields, 4214), \<lparr>contents = sample_header @ payload, pos = 17\<rparr>)"
proof -
  have "header_spec_layout sample_header = sample_fields"
    by (simp add: header_spec_layout_def sample_header_def sample_fields_def)
  then show ?thesis
    by (simp add: parse_info_success length_sample_header calc_checksum_sample)
qed

text \<open>
  C3. When \<^verbatim>\<open>strip_header\<close> has read the header: with \<^verbatim>\<open>ignore_header\<close> set the
  number of bytes to copy is the size of the file minus 17, and exactly that many bytes,
  all that follow the header, are copied and counted, whatever the length field says;
  without it the number of bytes to copy is the length field of the header.
\<close>

theorem strip_header_budget:
  assumes "parse_info (hobeta_file args) = Inr ((hdr, crc), f')"
  shows "\<exists>r. strip_header args = Inr r \<and>
     (ignore_header args \<longrightarrow>
        bytes_to_copy (ignore_header args) (int (length (contents (hobeta_file args)))) hdr =
          int (length (contents (hobeta_file args))) - 17 \<and>
        returned r = int (length (contents (hobeta_file args))) - 17 \<and>
        written r = output_file args @ drop 17 (contents (hobeta_file args))) \<and>
     (\<not> ignore_header args \<longrightarrow>
        bytes_to_copy (ignore_header args) (int (length (contents (hobeta_file args)))) hdr =
          int (length_field hdr) \<and>
        returned r = min (int (length_field hdr)) (int (length (contents (hobeta_file args))) - 17) \<and>
        written r = output_file args @
          take (length_field hdr) (drop 17 (contents (hobeta_file args))))"
proof -
  have "17 \<le> length (contents (hobeta_file args))"
    using parse_info_InrD(1) [OF assms] by simp
  then show ?thesis
    by (auto simp: strip_header_closed [OF assms] bytes_to_copy_def calcsize_HEADER_FMT
        nat_diff_distrib' min_def)
qed

theorem strip_header_budget_witness:
  "(\<exists>r. strip_header \<lparr>hobeta_file = \<lparr>contents = sample_header @ [1, 2, 3, 4, 5], pos = 0\<rparr>,
        output_file = [], output_name = ''out'', ignore_header = True\<rparr> = Inr r \<and>
      returned r = 5 \<and> written r = [1, 2, 3, 4, 5]) \<and>
   (\<exists>r. strip_header \<lparr>hobeta_file = \<lparr>contents = sample_header @ [1, 2, 3, 4, 5], pos = 0\<rparr>,
        output_file = [], output_name = ''out'', ignore_header = False\<rparr> = Inr r \<and>
      returned r = 3 \<and> written r = [1, 2, 3])"
  using strip_header_budget [of "\<lparr>hobeta_file = \<lparr>contents = sample_header @ [1, 2, 3, 4, 5], pos = 0\<rparr>,
        output_file = [], output_name = ''out'', ignore_header = True\<rparr>" sample_fields 4214
        "\<lparr>contents = sample_header @ [1, 2, 3, 4, 5], pos = 17\<rparr>"]
    strip_header_budget [of "\<lparr>hobeta_file = \<lparr>contents = sample_header @ [1, 2, 3, 4, 5], pos = 0\<rparr>,
        output_file = [], output_name = ''out'', ignore_header = False\<rparr>" sample_fields 4214
        "\<lparr>contents = sample_header @ [1, 2, 3, 4, 5], pos = 17\<rparr>"]
  by (auto simp: parse_info_sample length_sample_header sample_fields_def)

text \<open>
  C4. A 17-byte header whose length field is \<open>L\<close>, followed by exactly \<open>L\<close> bytes:
  without \<^verbatim>\<open>ignore_header\<close>, \<^verbatim>\<open>strip_header\<close> returns \<open>L\<close> and has written the
  first \<open>L\<close> bytes of the payload, which is all of it.
\<close>

theorem strip_header_round_trip:
  assumes "length hb = 17"
    and "hobeta_file args = \<lparr>contents = hb @ payload, pos = 0\<rparr>"
    and "parse_info (hobeta_file args) = Inr ((hdr, crc), f')"
    and "length_field hdr = length payload"
    and "\<not> ignore_header args"
  shows "\<exists>r. strip_header args = Inr r \<and> returned r = int (length_field hdr) \<and>
    written r = output_file args @ take (length_field hdr) payload \<and>
    take (length_field hdr) payload = payload"
  using assms(1,2,4,5)
  by (simp add: strip_header_closed [OF assms(3)] bytes_to_copy_def)

theorem strip_header_round_trip_witness:
  "\<exists>r. strip_header \<lparr>hobeta_file = \<lparr>contents = sample_header @ [1, 2, 3], pos = 0\<rparr>,
        output_file = [], output_name = ''out'', ignore_header = False\<rparr> = Inr r \<and>
      returned r = 3 \<and> written r = [1, 2, 3]"
  using strip_header_round_trip [of sample_header
        "\<lparr>hobeta_file = \<lparr>contents = sample_header @ [1, 2, 3], pos = 0\<rparr>,
        output_file = [], output_name = ''out'', ignore_header = False\<rparr>" "[1, 2, 3]"
        sample_fields 4214 "\<lparr>contents = sample_header @ [1, 2, 3], pos = 17\<rparr>"]
  by (simp add: parse_info_sample length_sample_header sample_fields_def)

text \<open>
  C5. A 17-byte header whose length field is \<open>L\<close>, followed by only \<open>M < L\<close>
  bytes: \<^verbatim>\<open>strip_header\<close> does not fail, returns \<open>M\<close> and has written the \<open>M\<close>
  bytes.
\<close>

theorem strip_header_short_source:
  assumes "length hb = 17"
    and "hobeta_file args = \<lparr>contents = hb @ payload, pos = 0\<rparr>"
    and "parse_info (hobeta_file args) = Inr ((hdr, crc), f')"
    and "length payload < length_field hdr"
    and "\<not> ignore_header args"
  shows "\<exists>r. strip_header args = Inr r \<and> returned r = int (length payload) \<and>
    written r = output_file args @ payload"
  using assms(1,2,4,5)
  by (simp add: strip_header_closed [OF assms(3)] bytes_to_copy_def)

theorem strip_header_short_source_witness:
  "\<exists>r. strip_header \<lparr>hobeta_file = \<lparr>contents = sample_header @ [1, 2], pos = 0\<rparr>,
        output_file = [], output_name = ''out'', ignore_header = False\<rparr> = Inr r \<and>
      returned r = 2 \<and> written r = [1, 2]"
  using strip_header_short_source [of sample_header
        "\<lparr>hobeta_file = \<lparr>contents = sample_header @ [1, 2], pos = 0\<rparr>,
        output_file = [], output_name = ''out'', ignore_header = False\<rparr>" "[1, 2]"
        sample_fields 4214 "\<lparr>contents = sample_header @ [1, 2], pos = 17\<rparr>"]
  by (simp add: parse_info_sample length_sample_header sample_fields_def)

text \<open>
  C9. The copy seeks to offset 17 before it reads: its result does not depend on the
  read position of the source, the bytes written are a run of bytes of the file that
  starts at offset 17, and the source is left right after them. So whenever
  \<^verbatim>\<open>strip_header\<close> returns, none of the first 17 bytes of the file is in what it
  wrote.
\<close>

theorem copy_payload_from_header_size:
  "(\<exists>n. copy_payload header ig src dst =
       (int n, src\<lparr>pos := 17 + n\<rparr>, dst @ take n (drop 17 (contents src)))) \<and>
   copy_payload header ig (src\<lparr>pos := p\<rparr>) dst = copy_payload header ig (src\<lparr>pos := q\<rparr>) dst \<and>
   (\<forall>r. strip_header args = Inr r \<longrightarrow>
      (\<exists>n. written r = output_file args @ take n (drop 17 (contents (hobeta_file args)))))"
proof (intro conjI allI impI)
  show "\<exists>n. copy_payload header ig src dst =
       (int n, src\<lparr>pos := 17 + n\<rparr>, dst @ take n (drop 17 (contents src)))"
    by (rule exI [of _ "length (take (nat (bytes_to_copy ig (int (length (contents src))) header))
              (drop 17 (contents src)))"])
      (simp add: copy_payload_closed take_min_length)
next
  show "copy_payload header ig (src\<lparr>pos := p\<rparr>) dst = copy_payload header ig (src\<lparr>pos := q\<rparr>) dst"
    by (simp add: copy_payload_closed)
next
  fix r
  assume r: "strip_header args = Inr r"
  show "\<exists>n. written r = output_file args @ take n (drop 17 (contents (hobeta_file args)))"
  proof (cases "parse_info (hobeta_file args)")
    case (Inl e)
    with r show ?thesis
      by (simp add: strip_header_def)
  next
    case (Inr x)
    then obtain hdr crc f' where "parse_info (hobeta_file args) = Inr ((hdr, crc), f')"
      by (cases x) auto
    from strip_header_closed [OF this] r show ?thesis
      by auto
  qed
qed

theorem copy_payload_from_header_size_witness:
  "copy_payload sample_fields False \<lparr>contents = sample_header @ [1, 2, 3, 4, 5], pos = 9\<rparr> [] =
     copy_payload sample_fields False \<lparr>contents = sample_header @ [1, 2, 3, 4, 5], pos = 0\<rparr> [] \<and>
   (\<exists>n. copy_payload sample_fields False \<lparr>contents = sample_header @ [1, 2, 3, 4, 5], pos = 9\<rparr> [] =
      (int n, \<lparr>contents = sample_header @ [1, 2, 3, 4, 5], pos = 17 + n\<rparr>, take n [1, 2, 3, 4, 5])) \<and>
   strip_header \<lparr>hobeta_file = \<lparr>contents = sample_header @ [1, 2, 3, 4, 5], pos = 0\<rparr>,
        output_file = [], output_name = ''out'', ignore_header = False\<rparr> =
     Inr \<lparr>returned = 3, written = [1, 2, 3],
          printed = [''Created file out, 3 bytes copied.'']\<rparr> \<and>
   (\<exists>n. written \<lparr>returned = 3, written = [1, 2, 3],
          printed = [''Created file out, 3 bytes copied.'']\<rparr> = take n [1, 2, 3, 4, 5])"
proof -
  have s: "strip_header \<lparr>hobeta_file = \<lparr>contents = sample_header @ [1, 2, 3, 4, 5], pos = 0\<rparr>,
        output_file = [], output_name = ''out'', ignore_header = False\<rparr> =
     Inr \<lparr>returned = 3, written = [1, 2, 3],
          printed = [''Created file out, 3 bytes copied.'']\<rparr>"
    by (simp add: strip_header_closed [of _ sample_fields 4214
          "\<lparr>contents = sample_header @ [1, 2, 3, 4, 5], pos = 17\<rparr>"]
        parse_info_sample length_sample_header sample_fields_def bytes_to_copy_def
        str_int_def str_nat.simps char_of_def bit_iff_odd_drop_bit drop_bit_eq_div)
  show ?thesis
    using copy_payload_from_header_size [of sample_fields False
        "\<lparr>contents = sample_header @ [1, 2, 3, 4, 5], pos = 9\<rparr>" "[]" 9 0
        "\<lparr>hobeta_file = \<lparr>contents = sample_header @ [1, 2, 3, 4, 5], pos = 0\<rparr>,
        output_file = [], output_name = ''out'', ignore_header = False\<rparr>"] s
    by (auto simp: length_sample_header)
qed

text \<open>
  C10. When \<^verbatim>\<open>strip_header\<close> has read the header, the number of bytes added to the
  output file is the value returned; that value is not negative and not above the number
  of bytes to copy; and when that number is zero, nothing is written and 0 is returned.
\<close>

theorem strip_header_count:
  assumes "parse_info (hobeta_file args) = Inr ((hdr, crc), f')"
  shows "\<exists>r. strip_header args = Inr r \<and>
     int (length (written r)) = int (length (output_file args)) + returned r \<and>
     0 \<le> returned r \<and>
     returned r \<le> bytes_to_copy (ignore_header args) (int (length (contents (hobeta_file args)))) hdr \<and>
     (bytes_to_copy (ignore_header args) (int (length (contents (hobeta_file args)))) hdr = 0 \<longrightarrow>
        returned r = 0 \<and> written r = output_file args)"
proof -
  have "17 \<le> length (contents (hobeta_file args))"
    using parse_info_InrD(1) [OF assms] by simp
  then have "0 \<le> bytes_to_copy (ignore_header args) (int (length (contents (hobeta_file args)))) hdr"
    by (simp add: bytes_to_copy_def calcsize_HEADER_FMT)
  then show ?thesis
    by (simp add: strip_header_closed [OF assms])
qed

theorem strip_header_count_witness:
  "(\<exists>r. strip_header \<lparr>hobeta_file = \<lparr>contents = sample_header @ [1, 2, 3, 4, 5], pos = 0\<rparr>,
        output_file = [], output_name = ''out'', ignore_header = False\<rparr> = Inr r \<and>
      int (length (written r)) = returned r \<and> returned r \<le> 3) \<and>
   (\<exists>r. strip_header \<lparr>hobeta_file = \<lparr>contents = sample_header, pos = 0\<rparr>,
        output_file = [], output_name = ''out'', ignore_header = True\<rparr> = Inr r \<and>
      returned r = 0 \<and> written r = [])"
  using strip_header_count [of "\<lparr>hobeta_file = \<lparr>contents = sample_header @ [1, 2, 3, 4, 5], pos = 0\<rparr>,
        output_file = [], output_name = ''out'', ignore_header = False\<rparr>" sample_fields 4214
        "\<lparr>contents = sample_header @ [1, 2, 3, 4, 5], pos = 17\<rparr>"]
    strip_header_count [of "\<lparr>hobeta_file = \<lparr>contents = sample_header @ [], pos = 0\<rparr>,
        output_file = [], output_name = ''out'', ignore_header = True\<rparr>" sample_fields 4214
        "\<lparr>contents = sample_header @ [], pos = 17\<rparr>"]
    parse_info_sample [of "[]"]
  by (auto simp: parse_info_sample length_sample_header sample_fields_def bytes_to_copy_def
      calcsize_HEADER_FMT)

section \<open>A wrong checksum\<close>

lemma expandtabs_from_no_tab:
  "CHR 0x09 \<notin> set ys \<Longrightarrow> expandtabs_from tabsize col ys = ys"
  by (induction ys arbitrary: col) auto

lemma expandtabs_from_append:
  "CHR 0x09 \<notin> set ys \<Longrightarrow> \<exists>pre. expandtabs_from tabsize col (xs @ ys) = pre @ ys"
proof (induction xs arbitrary: col)
  case Nil
  then show ?case
    by (simp add: expandtabs_from_no_tab)
next
  case (Cons c xs)
  show ?case
  proof (cases "c = CHR 0x09")
    case True
    show ?thesis
    proof (cases "0 < tabsize")
      case True
      from Cons.IH [OF Cons.prems, of "col + (tabsize - col mod tabsize)"]
      obtain pre where "expandtabs_from tabsize (col + (tabsize - col mod tabsize)) (xs @ ys) = pre @ ys"
        by blast
      with \<open>c = CHR 0x09\<close> True
      have "expandtabs_from tabsize col ((c # xs) @ ys) =
          (replicate (tabsize - col mod tabsize) CHR '' '' @ pre) @ ys"
        by (simp add: Let_def)
      then show ?thesis by blast
    next
      case False
      from Cons.IH [OF Cons.prems, of col]
      obtain pre where "expandtabs_from tabsize col (xs @ ys) = pre @ ys"
        by blast
      with \<open>c = CHR 0x09\<close> False
      have "expandtabs_from tabsize col ((c # xs) @ ys) = pre @ ys"
        by simp
      then show ?thesis by blast
    qed
  next
    case False
    from Cons.IH [OF Cons.prems, of "if c = CHR 0x0A \<or> c = CHR 0x0D then 0 else col + 1"]
    obtain pre where
      "expandtabs_from tabsize (if c = CHR 0x0A \<or> c = CHR 0x0D then 0 else col + 1) (xs @ ys) = pre @ ys"
      by blast
    with False have "expandtabs_from tabsize col ((c # xs) @ ys) = (c # pre) @ ys"
      by simp
    then show ?thesis by blast
  qed
qed

lemma digit_not_tab: "d < 10 \<Longrightarrow> char_of (48 + d :: nat) \<noteq> CHR 0x09"
proof
  assume "d < 10" and "char_of (48 + d) = CHR 0x09"
  then have "of_char (char_of (48 + d)) = (of_char (CHR 0x09) :: nat)"
    by simp
  with \<open>d < 10\<close> show False
    by simp
qed

lemma str_nat_no_tab: "CHR 0x09 \<notin> set (str_nat n)"
proof (induction n rule: str_nat.induct)
  case (1 n)
  show ?case
  proof (cases "n < 10")
    case True
    then show ?thesis
      by (subst str_nat.simps) (simp add: digit_not_tab [THEN not_sym])
  next
    case False
    have "n mod 10 < 10" by simp
    then have "char_of (48 + n mod 10) \<noteq> CHR 0x09"
      by (rule digit_not_tab)
    with False "1.IH" show ?thesis
      by (subst str_nat.simps) auto
  qed
qed

lemma show_info_wrong:
  assumes "parse_info (hobeta_file args) = Inr ((hdr, crc), f')"
    and "list_all (\<lambda>b. unat b < 128) (filename hdr)"
    and "check_sum hdr \<noteq> unat crc"
  shows "\<exists>text. show_info args = Inr (text @ ''(WRONG! Should be '' @ str_nat (unat crc) @ '')'')"
proof -
  define pre where "pre =
    ''File name:'' @ [CHR 0x09] @ map (\<lambda>b. char_of (unat b)) (filename hdr) @ [CHR 0x0A] @
    ''Extension:'' @ [CHR 0x09] @ [char_of (filetype hdr)] @ [CHR 0x0A] @
    (if filetype hdr = 66 then ''Prg LEN:'' @ [CHR 0x09] else ''Place at:'' @ [CHR 0x09]) @
    str_nat (start hdr) @ [CHR 0x0A] @
    ''File size:'' @ [CHR 0x09] @ str_nat (length_field hdr) @ [CHR 0x0A] @
    ''First sector:'' @ [CHR 0x09] @ str_nat (first_sector hdr) @ [CHR 0x0A] @
    ''Occupied sectors:'' @ [CHR 0x09] @ str_nat (occupied_sectors hdr) @ [CHR 0x0A] @
    ''Check sum:'' @ [CHR 0x09] @ str_nat (check_sum hdr) @ '' ''"
  define suf where "suf = ''(WRONG! Should be '' @ str_nat (unat crc) @ '')''"
  have "CHR 0x09 \<notin> set suf"
    by (simp add: suf_def str_nat_no_tab)
  then obtain out where t: "expandtabs_from 20 0 (pre @ suf) = out @ suf"
    using expandtabs_from_append by blast
  have "show_info args = Inr (expandtabs 20 (pre @ suf))"
    using assms by (simp add: show_info_def decode_ascii_def pre_def suf_def)
  then have "show_info args = Inr (out @ suf)"
    by (simp add: expandtabs_def t)
  then show ?thesis
    unfolding suf_def by blast
qed

text \<open>
  What the code does on a header with a wrong stored checksum: \<^verbatim>\<open>strip_header\<close> runs
  to its end, printing the warning and then the line with the number of bytes copied;
  \<^verbatim>\<open>show_info\<close> runs to its end when the eight bytes of the file name are ASCII, its
  text ending in the computed checksum.
\<close>

theorem checksum_mismatch_is_warning:
  assumes "parse_info (hobeta_file args) = Inr ((hdr, crc), f')"
    and "check_sum hdr \<noteq> unat crc"
  shows "(\<exists>r. strip_header args = Inr r \<and>
            printed r = [''WARNING: wrong checksum in the header.'',
              ''Created file '' @ output_name args @ '', '' @ str_int (returned r) @
              '' bytes copied.'']) \<and>
         (list_all (\<lambda>b. unat b < 128) (filename hdr) \<longrightarrow>
            (\<exists>out. show_info args =
               Inr (out @ ''(WRONG! Should be '' @ str_nat (unat crc) @ '')'')))"
proof
  show "\<exists>r. strip_header args = Inr r \<and>
            printed r = [''WARNING: wrong checksum in the header.'',
              ''Created file '' @ output_name args @ '', '' @ str_int (returned r) @
              '' bytes copied.'']"
    using assms(2) by (simp add: strip_header_closed [OF assms(1)])
next
  show "list_all (\<lambda>b. unat b < 128) (filename hdr) \<longrightarrow>
            (\<exists>out. show_info args =
               Inr (out @ ''(WRONG! Should be '' @ str_nat (unat crc) @ '')''))"
    using show_info_wrong [OF assms(1) _ assms(2)] by blast
qed

theorem checksum_mismatch_is_warning_witness:
  "(\<exists>r. strip_header \<lparr>hobeta_file =
         \<lparr>contents = [84, 69, 83, 84, 70, 73, 76, 69, 66, 100, 0, 3, 0, 3, 1, 0, 0] @ [1, 2, 3],
          pos = 0\<rparr>,
       output_file = [], output_name = ''out'', ignore_header = False\<rparr> = Inr r \<and>
     printed r = [''WARNING: wrong checksum in the header.'',
                  ''Created file out, '' @ str_int (returned r) @ '' bytes copied.'']) \<and>
   (\<exists>out. show_info \<lparr>hobeta_file =
         \<lparr>contents = [84, 69, 83, 84, 70, 73, 76, 69, 66, 100, 0, 3, 0, 3, 1, 0, 0] @ [1, 2, 3],
          pos = 0\<rparr>,
       output_file = [], output_name = ''out'', ignore_header = False\<rparr> =
     Inr (out @ ''(WRONG! Should be 4214)''))"
proof -
  have p: "parse_info \<lparr>contents = [84, 69, 83, 84, 70, 73, 76, 69, 66, 100, 0, 3, 0, 3, 1, 0, 0] @ [1, 2, 3],
          pos = 0\<rparr> =
     Inr ((\<lparr>filename = [84, 69, 83, 84, 70, 73, 76, 69], filetype = 66, start = 100,
            length_field = 3, first_sector = 3, occupied_sectors = 1, check_sum = 0\<rparr>, 4214),
          \<lparr>contents = [84, 69, 83, 84, 70, 73, 76, 69, 66, 100, 0, 3, 0, 3, 1, 0, 0] @ [1, 2, 3],
           pos = 17\<rparr>)"
    by (simp add: parse_info_success header_spec_layout_def calc_checksum_def numpy_uint16_def)
  have s: "str_nat 4214 = ''4214''"
    by (simp add: str_nat.simps char_of_def bit_iff_odd_drop_bit drop_bit_eq_div)
  show ?thesis
    using checksum_mismatch_is_warning [of "\<lparr>hobeta_file =
         \<lparr>contents = [84, 69, 83, 84, 70, 73, 76, 69, 66, 100, 0, 3, 0, 3, 1, 0, 0] @ [1, 2, 3],
          pos = 0\<rparr>,
       output_file = [], output_name = ''out'', ignore_header = False\<rparr>"
       "\<lparr>filename = [84, 69, 83, 84, 70, 73, 76, 69], filetype = 66, start = 100,
            length_field = 3, first_sector = 3, occupied_sectors = 1, check_sum = 0\<rparr>" 4214
       "\<lparr>contents = [84, 69, 83, 84, 70, 73, 76, 69, 66, 100, 0, 3, 0, 3, 1, 0, 0] @ [1, 2, 3],
           pos = 17\<rparr>"] p s
    by simp
qed

text \<open>
  C8. A wrong checksum is to stop neither the display nor the copy. The code departs
  from that in \<^verbatim>\<open>show_info\<close>, which decodes the file name as ASCII before it prints
  anything. The file below has the stored checksum 0 where 15522 is computed, and 128 as
  the first byte of its name: \<^verbatim>\<open>show_info\<close> ends in
  \<^verbatim>\<open>UnicodeDecodeError\<close>, while \<^verbatim>\<open>strip_header\<close> prints the warning and copies the
  three bytes. The same file with the checksum bytes 162 and 60, which match, ends
  \<^verbatim>\<open>show_info\<close> the same way: the exception comes from the name, not from the
  comparison.
\<close>

theorem show_info_non_ascii_filename:
  "parse_info
     \<lparr>contents = [128, 69, 83, 84, 70, 73, 76, 69, 66, 100, 0, 3, 0, 3, 1, 0, 0, 1, 2, 3],
      pos = 0\<rparr> =
     Inr ((\<lparr>filename = [128, 69, 83, 84, 70, 73, 76, 69], filetype = 66, start = 100,
            length_field = 3, first_sector = 3, occupied_sectors = 1, check_sum = 0\<rparr>, 15522),
          \<lparr>contents = [128, 69, 83, 84, 70, 73, 76, 69, 66, 100, 0, 3, 0, 3, 1, 0, 0, 1, 2, 3],
           pos = 17\<rparr>) \<and>
   show_info \<lparr>hobeta_file =
       \<lparr>contents = [128, 69, 83, 84, 70, 73, 76, 69, 66, 100, 0, 3, 0, 3, 1, 0, 0, 1, 2, 3],
        pos = 0\<rparr>,
     output_file = [], output_name = ''out'', ignore_header = False\<rparr> = Inl UnicodeDecodeError \<and>
   strip_header \<lparr>hobeta_file =
       \<lparr>contents = [128, 69, 83, 84, 70, 73, 76, 69, 66, 100, 0, 3, 0, 3, 1, 0, 0, 1, 2, 3],
        pos = 0\<rparr>,
     output_file = [], output_name = ''out'', ignore_header = False\<rparr> =
     Inr \<lparr>returned = 3, written = [1, 2, 3],
          printed = [''WARNING: wrong checksum in the header.'',
                     ''Created file out, 3 bytes copied.'']\<rparr> \<and>
   show_info \<lparr>hobeta_file =
       \<lparr>contents = [128, 69, 83, 84, 70, 73, 76, 69, 66, 100, 0, 3, 0, 3, 1, 162, 60, 1, 2, 3],
        pos = 0\<rparr>,
     output_file = [], output_name = ''out'', ignore_header = False\<rparr> = Inl UnicodeDecodeError"
proof -
  have p: "parse_info
     \<lparr>contents = [128, 69, 83, 84, 70, 73, 76, 69, 66, 100, 0, 3, 0, 3, 1, 0, 0, 1, 2, 3],
      pos = 0\<rparr> =
     Inr ((\<lparr>filename = [128, 69, 83, 84, 70, 73, 76, 69], filetype = 66, start = 100,
            length_field = 3, first_sector = 3, occupied_sectors = 1, check_sum = 0\<rparr>, 15522),
          \<lparr>contents = [128, 69, 83, 84, 70, 73, 76, 69, 66, 100, 0, 3, 0, 3, 1, 0, 0, 1, 2, 3],
           pos = 17\<rparr>)"
    by (simp add: parse_info_success header_spec_layout_def calc_checksum_def numpy_uint16_def)
  have q: "parse_info
     \<lparr>contents = [128, 69, 83, 84, 70, 73, 76, 69, 66, 100, 0, 3, 0, 3, 1, 162, 60, 1, 2, 3],
      pos = 0\<rparr> =
     Inr ((\<lparr>filename = [128, 69, 83, 84, 70, 73, 76, 69], filetype = 66, start = 100,
            length_field = 3, first_sector = 3, occupied_sectors = 1, check_sum = 15522\<rparr>, 15522),
          \<lparr>contents = [128, 69, 83, 84, 70, 73, 76, 69, 66, 100, 0, 3, 0, 3, 1, 162, 60, 1, 2, 3],
           pos = 17\<rparr>)"
    by (simp add: parse_info_success header_spec_layout_def calc_checksum_def numpy_uint16_def)
  have a: "show_info \<lparr>hobeta_file =
       \<lparr>contents = [128, 69, 83, 84, 70, 73, 76, 69, 66, 100, 0, 3, 0, 3, 1, 0, 0, 1, 2, 3],
        pos = 0\<rparr>,
     output_file = [], output_name = ''out'', ignore_header = False\<rparr> = Inl UnicodeDecodeError"
    by (simp add: show_info_def p decode_ascii_def)
  have b: "show_info \<lparr>hobeta_file =
       \<lparr>contents = [128, 69, 83, 84, 70, 73, 76, 69, 66, 100, 0, 3, 0, 3, 1, 162, 60, 1, 2, 3],
        pos = 0\<rparr>,
     output_file = [], output_name = ''out'', ignore_header = False\<rparr> = Inl UnicodeDecodeError"
    by (simp add: show_info_def q decode_ascii_def)
  have c: "strip_header \<lparr>hobeta_file =
       \<lparr>contents = [128, 69, 83, 84, 70, 73, 76, 69, 66, 100, 0, 3, 0, 3, 1, 0, 0, 1, 2, 3],
        pos = 0\<rparr>,
     output_file = [], output_name = ''out'', ignore_header = False\<rparr> =
     Inr \<lparr>returned = 3, written = [1, 2, 3],
          printed = [''WARNING: wrong checksum in the header.'',
                     ''Created file out, 3 bytes copied.'']\<rparr>"
    by (simp add: strip_header_closed [of _
          "\<lparr>filename = [128, 69, 83, 84, 70, 73, 76, 69], filetype = 66, start = 100,
            length_field = 3, first_sector = 3, occupied_sectors = 1, check_sum = 0\<rparr>" 15522
          "\<lparr>contents = [128, 69, 83, 84, 70, 73, 76, 69, 66, 100, 0, 3, 0, 3, 1, 0, 0, 1, 2, 3],
           pos = 17\<rparr>"]
        p bytes_to_copy_def str_int_def str_nat.simps char_of_def bit_iff_odd_drop_bit
        drop_bit_eq_div)
  from p a c b show ?thesis
    by (intro conjI)
qed

end
